theory Spec2Isabelle
  imports Complex_Main
begin

section \<open>Lagged coherence: the values of the model\<close>

text \<open>
  The program is \<^verbatim>\<open>neurodsp/laggedcoherence.py\<close>. Samples, frequencies and rates are
  modelled as exact reals and Fourier coefficients as exact complex numbers; rounding of
  binary floating point is outside the model. The special values that the arithmetic of
  the program can produce are kept: a division by zero of NumPy scalars yields
  \<open>NaN\<close> (for \<open>0 / 0\<close>) or an infinity, and never raises. Python exceptions are values
  of type \<open>error\<close>, and a function that can raise returns \<open>error + 'a\<close>.
\<close>

datatype error = ZeroDivisionError | OverflowError | ValueError

datatype npfloat = Fin real | PInf | NaN

datatype result = Scalar npfloat | Spectrum "npfloat list" "real list"

section \<open>Library functions used by the program\<close>

text \<open>
  \<^verbatim>\<open>np.arange(start, stop, step)\<close>: \<open>ceil((stop - start) / step)\<close> values
  \<open>start + i * step\<close>, none when that count is not positive; a zero step raises.
\<close>

definition arange :: "real \<Rightarrow> real \<Rightarrow> real \<Rightarrow> error + real list" where
  "arange start stop step =
     (if step = 0 then Inl ZeroDivisionError
      else Inr (map (\<lambda>i. start + real i * step) [0..<nat \<lceil>(stop - start) / step\<rceil>]))"

text \<open>
  \<^verbatim>\<open>np.reshape(a, (r, c))\<close> in row-major order. A negative entry of the shape stands
  for the one dimension to be inferred; two of them, or a size that does not fit, raise
  \<^verbatim>\<open>ValueError\<close>.
\<close>

fun reshape_rows :: "nat \<Rightarrow> nat \<Rightarrow> 'a list \<Rightarrow> 'a list list" where
  "reshape_rows 0 c xs = []"
| "reshape_rows (Suc r) c xs = take c xs # reshape_rows r c (drop c xs)"

definition np_reshape :: "'a list \<Rightarrow> int \<Rightarrow> int \<Rightarrow> error + 'a list list" where
  "np_reshape xs r c =
     (let n = length xs in
      if r < 0 \<and> c < 0 then Inl ValueError
      else if r < 0 then
        (if c = 0 \<or> n mod nat c \<noteq> 0 then Inl ValueError
         else Inr (reshape_rows (n div nat c) (nat c) xs))
      else if c < 0 then
        (if r = 0 \<or> n mod nat r \<noteq> 0 then Inl ValueError
         else Inr (reshape_rows (nat r) (n div nat r) xs))
      else if nat r * nat c \<noteq> n then Inl ValueError
      else Inr (reshape_rows (nat r) (nat c) xs))"

text \<open>
  \<^verbatim>\<open>scipy.signal.hanning(M)\<close>, the symmetric raised-cosine window.
\<close>

definition hanning :: "int \<Rightarrow> real list" where
  "hanning M =
     (if M < 1 then []
      else if M = 1 then [1]
      else map (\<lambda>n. 0.5 - 0.5 * cos (2 * pi * real n / real_of_int (M - 1))) [0..<nat M])"

text \<open>
  \<^verbatim>\<open>np.fft.fftfreq(n, d)\<close>: the bins \<open>0, 1, ..., (n-1)//2, -(n//2), ..., -1\<close>, each
  times \<open>1 / (n * d)\<close>.
\<close>

definition fftfreq :: "int \<Rightarrow> real \<Rightarrow> real list" where
  "fftfreq n d =
     (let val = 1 / (real_of_int n * d)
      in map (\<lambda>k. real_of_int k * val) ([0..(n - 1) div 2] @ [- (n div 2)..- 1]))"

text \<open>
  \<^verbatim>\<open>np.argmin\<close>: the index of the first occurrence of the least element; an empty
  sequence raises.
\<close>

fun argmin_from :: "nat \<Rightarrow> real \<Rightarrow> nat \<Rightarrow> real list \<Rightarrow> nat" where
  "argmin_from best m i [] = best"
| "argmin_from best m i (y # ys) =
     (if y < m then argmin_from i y (Suc i) ys else argmin_from best m (Suc i) ys)"

definition argmin :: "real list \<Rightarrow> error + nat" where
  "argmin ys = (case ys of [] \<Rightarrow> Inl ValueError | y # ys' \<Rightarrow> Inr (argmin_from 0 y 1 ys'))"

text \<open>
  \<^verbatim>\<open>np.fft.fft(a)\<close>: coefficient \<open>k\<close> is the sum of \<open>a[m] * exp(-2 pi i m k / n)\<close>.
\<close>

definition fft :: "complex list \<Rightarrow> complex list" where
  "fft a =
     (let n = length a
      in map (\<lambda>k. \<Sum>m\<leftarrow>[0..<n]. a ! m * cis (- (2 * pi * real m * real k / real n))) [0..<n])"

text \<open>
  \<^verbatim>\<open>np.mean\<close> of an array of floats: the sum divided by the count. A \<open>NaN\<close> entry
  makes the sum \<open>NaN\<close>, and the mean of no values is \<open>0 / 0\<close>.
\<close>

fun np_add :: "npfloat \<Rightarrow> npfloat \<Rightarrow> npfloat" where
  "np_add NaN v = NaN"
| "np_add u NaN = NaN"
| "np_add PInf v = PInf"
| "np_add u PInf = PInf"
| "np_add (Fin a) (Fin b) = Fin (a + b)"

definition np_sum :: "npfloat list \<Rightarrow> npfloat" where
  "np_sum vs = fold (\<lambda>v acc. np_add acc v) vs (Fin 0)"

definition np_mean :: "npfloat list \<Rightarrow> npfloat" where
  "np_mean vs =
     (case np_sum vs of
        Fin s \<Rightarrow> if vs = [] then NaN else Fin (s / real (length vs))
      | PInf \<Rightarrow> PInf
      | NaN \<Rightarrow> NaN)"

text \<open>
  \<^verbatim>\<open>np.abs(num / denom)\<close> for a complex \<open>num\<close> and a real \<open>denom\<close>: with a zero
  denominator the quotient is \<open>NaN\<close> when \<open>num\<close> is zero and infinite otherwise.
\<close>

definition abs_div :: "complex \<Rightarrow> real \<Rightarrow> npfloat" where
  "abs_div num denom =
     (if denom \<noteq> 0 then Fin (cmod (num / complex_of_real denom))
      else if num = 0 then NaN else PInf)"

section \<open>The program\<close>

subsection \<open>\<^verbatim>\<open>_nonoverlapping_chunks\<close>\<close>

text \<open>
  Lines 91--92. \<^verbatim>\<open>len(x) / float(N)\<close> divides Python floats and raises on a zero
  \<open>N\<close>. The number of chunks has the sign of \<open>N\<close> or is zero, so the end of the slice
  \<^verbatim>\<open>x[:Nchunks * N]\<close> is never negative and the slice is a prefix of \<open>x\<close>.
\<close>

definition nonoverlapping_chunks :: "'a list \<Rightarrow> int \<Rightarrow> error + 'a list list" where
  "nonoverlapping_chunks x N =
     (if N = 0 then Inl ZeroDivisionError
      else
        let Nchunks = \<lfloor>real (length x) / real_of_int N\<rfloor>
        in np_reshape (take (nat (Nchunks * N)) x) Nchunks N)"

subsection \<open>\<^verbatim>\<open>_lagged_coherence_1freq\<close>\<close>

text \<open>
  The window length \<^verbatim>\<open>int(np.ceil(n_cycles * s_rate / f))\<close>. The frequency \<open>f\<close> is a
  NumPy scalar, so dividing by a zero \<open>f\<close> gives an infinity or \<open>NaN\<close>, which
  \<^verbatim>\<open>int\<close> then refuses to convert.
\<close>

definition n_samps_of :: "real \<Rightarrow> real \<Rightarrow> real \<Rightarrow> error + int" where
  "n_samps_of n_cycles s_rate f =
     (if f = 0 then (if n_cycles * s_rate = 0 then Inl ValueError else Inl OverflowError)
      else Inr \<lceil>n_cycles * s_rate / f\<rceil>)"

text \<open>
  Lines 72--73: the index of the bin of the DFT frequency grid that is selected for the
  frequency \<open>f\<close>. \<^verbatim>\<open>1 / float(s_rate)\<close> is a division of Python floats and raises
  on a zero rate.
\<close>

definition fourier_f_idx_of :: "int \<Rightarrow> real \<Rightarrow> real \<Rightarrow> error + nat" where
  "fourier_f_idx_of n_samps s_rate f =
     (if s_rate = 0 then Inl ZeroDivisionError
      else argmin (map (\<lambda>v. \<bar>v - f\<bar>) (fftfreq n_samps (1 / s_rate))))"

text \<open>The loop that stores one Fourier coefficient per chunk (lines 74--77).\<close>

fun coes_loop ::
  "real list \<Rightarrow> nat \<Rightarrow> complex list \<Rightarrow> nat \<Rightarrow> real list list \<Rightarrow> complex list" where
  "coes_loop hann_window idx coes i2 [] = coes"
| "coes_loop hann_window idx coes i2 (c # cs) =
     (let fourier_coef = fft (map complex_of_real (map2 (*) c hann_window))
      in coes_loop hann_window idx (coes[i2 := fourier_coef ! idx]) (Suc i2) cs)"

text \<open>Lines 65--77: the array \<^verbatim>\<open>fourier_coes_rateoi\<close>.\<close>

definition fourier_coes_rateoi_of ::
  "real list \<Rightarrow> real \<Rightarrow> real \<Rightarrow> real \<Rightarrow> error + complex list" where
  "fourier_coes_rateoi_of x f s_rate n_cycles =
     (case n_samps_of n_cycles s_rate f of
        Inl e \<Rightarrow> Inl e
      | Inr n_samps \<Rightarrow>
         (case nonoverlapping_chunks x n_samps of
            Inl e \<Rightarrow> Inl e
          | Inr chunks \<Rightarrow>
             (let C = length chunks;
                  hann_window = hanning n_samps
              in case fourier_f_idx_of n_samps s_rate f of
                   Inl e \<Rightarrow> Inl e
                 | Inr fourier_f_idx \<Rightarrow>
                     Inr (coes_loop hann_window fourier_f_idx (replicate C 0) 0 chunks))))"

text \<open>The loop \<^verbatim>\<open>for i2 in range(C - 1)\<close> that accumulates the numerator.\<close>

definition lcs_num_of :: "complex list \<Rightarrow> complex" where
  "lcs_num_of coes =
     fold (\<lambda>i2 acc. acc + coes ! i2 * cnj (coes ! (i2 + 1)))
       [0..<nat (int (length coes) - 1)] 0"

text \<open>The slices \<^verbatim>\<open>[:-1]\<close> and \<^verbatim>\<open>[1:]\<close> are \<open>butlast\<close> and \<open>drop 1\<close>.\<close>

definition lcs_denom_of :: "complex list \<Rightarrow> real" where
  "lcs_denom_of coes =
     sqrt ((\<Sum>z\<leftarrow>butlast coes. (cmod z)\<^sup>2) * (\<Sum>z\<leftarrow>drop 1 coes. (cmod z)\<^sup>2))"

text \<open>The parameter \<open>f_step\<close> is accepted and not used, as in the source.\<close>

definition lagged_coherence_1freq ::
  "real list \<Rightarrow> real \<Rightarrow> real \<Rightarrow> real \<Rightarrow> real \<Rightarrow> error + npfloat" where
  "lagged_coherence_1freq x f s_rate n_cycles f_step =
     (case fourier_coes_rateoi_of x f s_rate n_cycles of
        Inl e \<Rightarrow> Inl e
      | Inr coes \<Rightarrow> Inr (abs_div (lcs_num_of coes) (lcs_denom_of coes)))"

subsection \<open>\<^verbatim>\<open>lagged_coherence\<close>\<close>

text \<open>Line 44: the frequencies of the sweep.\<close>

definition freqs_of :: "real \<times> real \<Rightarrow> real \<Rightarrow> error + real list" where
  "freqs_of f_range f_step = arange (fst f_range) (snd f_range + f_step) f_step"

text \<open>
  The loop over the frequencies; an exception raised for one frequency ends the call.
\<close>

fun lcs_loop ::
  "real list \<Rightarrow> real \<Rightarrow> real \<Rightarrow> real \<Rightarrow> npfloat list \<Rightarrow> nat \<Rightarrow> real list
     \<Rightarrow> error + npfloat list" where
  "lcs_loop x s_rate n_cycles f_step lcs ind [] = Inr lcs"
| "lcs_loop x s_rate n_cycles f_step lcs ind (freq # freqs) =
     (case lagged_coherence_1freq x freq s_rate n_cycles f_step of
        Inl e \<Rightarrow> Inl e
      | Inr v \<Rightarrow> lcs_loop x s_rate n_cycles f_step (lcs[ind := v]) (Suc ind) freqs)"

definition lagged_coherence ::
  "real list \<Rightarrow> real \<times> real \<Rightarrow> real \<Rightarrow> real \<Rightarrow> real \<Rightarrow> bool \<Rightarrow> error + result" where
  "lagged_coherence x f_range s_rate n_cycles f_step return_spectrum =
     (case freqs_of f_range f_step of
        Inl e \<Rightarrow> Inl e
      | Inr freqs \<Rightarrow>
         (case lcs_loop x s_rate n_cycles f_step
                 (replicate (length freqs) (Fin 0)) 0 freqs of
            Inl e \<Rightarrow> Inl e
          | Inr lcs \<Rightarrow>
             if return_spectrum then Inr (Spectrum lcs freqs)
             else Inr (Scalar (np_mean lcs))))"

section \<open>The program on a store of arrays\<close>

text \<open>
  NumPy arrays are mutable and a slice or a reshape of an array is a view of the same
  buffer. To state what a call does to the array it is given, the program is modelled a
  second time over a store: an array is an address, \<^verbatim>\<open>np.zeros\<close>, \<^verbatim>\<open>np.arange\<close> and
  the other constructors allocate a new address, an item assignment overwrites one
  element of the array at its address, and the chunks are rows of positions in the
  buffer of \<open>x\<close> that are read through the store when they are used. Arrays that have no
  name in the source (the product \<^verbatim>\<open>c * hann_window\<close>, the result of the FFT) are
  created, read once and dropped; they are values here. An exception leaves the store
  as it is at the point where it is raised.
\<close>

datatype ndarray = RealArr "real list" | FloatArr "npfloat list" | ComplexArr "complex list"

record store =
  cells :: "nat \<Rightarrow> ndarray option"
  fresh :: nat

definition alloc :: "ndarray \<Rightarrow> store \<Rightarrow> nat \<times> store" where
  "alloc a s = (fresh s, s\<lparr>cells := (cells s)(fresh s \<mapsto> a), fresh := Suc (fresh s)\<rparr>)"

definition real_array :: "store \<Rightarrow> nat \<Rightarrow> real list" where
  "real_array s a = (case cells s a of Some (RealArr xs) \<Rightarrow> xs | _ \<Rightarrow> [])"

definition float_array :: "store \<Rightarrow> nat \<Rightarrow> npfloat list" where
  "float_array s a = (case cells s a of Some (FloatArr vs) \<Rightarrow> vs | _ \<Rightarrow> [])"

definition complex_array :: "store \<Rightarrow> nat \<Rightarrow> complex list" where
  "complex_array s a = (case cells s a of Some (ComplexArr zs) \<Rightarrow> zs | _ \<Rightarrow> [])"

text \<open>
  Item assignment \<^verbatim>\<open>a[i] = v\<close>. The two assignments of the program use an index below
  the length of the array they write to.
\<close>

definition setitem_float :: "nat \<Rightarrow> nat \<Rightarrow> npfloat \<Rightarrow> store \<Rightarrow> store" where
  "setitem_float a i v s = s\<lparr>cells := (cells s)(a \<mapsto> FloatArr ((float_array s a)[i := v]))\<rparr>"

definition setitem_complex :: "nat \<Rightarrow> nat \<Rightarrow> complex \<Rightarrow> store \<Rightarrow> store" where
  "setitem_complex a i v s =
     s\<lparr>cells := (cells s)(a \<mapsto> ComplexArr ((complex_array s a)[i := v]))\<rparr>"

text \<open>
  \<^verbatim>\<open>_nonoverlapping_chunks\<close> on the array at address \<open>xa\<close>: the result is a view, each
  row the positions of the buffer of \<open>x\<close> that the chunk shows.
\<close>

definition nonoverlapping_chunks_view :: "store \<Rightarrow> nat \<Rightarrow> int \<Rightarrow> error + nat list list" where
  "nonoverlapping_chunks_view s xa N = nonoverlapping_chunks [0..<length (real_array s xa)] N"

fun coes_loop_st ::
  "nat \<Rightarrow> nat \<Rightarrow> nat \<Rightarrow> nat \<Rightarrow> nat \<Rightarrow> nat list list \<Rightarrow> store \<Rightarrow> store" where
  "coes_loop_st xa ha ca idx i2 [] s = s"
| "coes_loop_st xa ha ca idx i2 (row # rows) s =
     (let c = map (\<lambda>j. real_array s xa ! j) row;
          fourier_coef = fft (map complex_of_real (map2 (*) c (real_array s ha)))
      in coes_loop_st xa ha ca idx (Suc i2) rows (setitem_complex ca i2 (fourier_coef ! idx) s))"

definition lagged_coherence_1freq_st ::
  "nat \<Rightarrow> real \<Rightarrow> real \<Rightarrow> real \<Rightarrow> real \<Rightarrow> store \<Rightarrow> (error + npfloat) \<times> store" where
  "lagged_coherence_1freq_st xa f s_rate n_cycles f_step s =
     (case n_samps_of n_cycles s_rate f of
        Inl e \<Rightarrow> (Inl e, s)
      | Inr n_samps \<Rightarrow>
         (case nonoverlapping_chunks_view s xa n_samps of
            Inl e \<Rightarrow> (Inl e, s)
          | Inr chunks \<Rightarrow>
             (let C = length chunks;
                  (ha, s1) = alloc (RealArr (hanning n_samps)) s
              in if s_rate = 0 then (Inl ZeroDivisionError, s1)
                 else
                   (let (fa, s2) = alloc (RealArr (fftfreq n_samps (1 / s_rate))) s1
                    in case argmin (map (\<lambda>v. \<bar>v - f\<bar>) (real_array s2 fa)) of
                         Inl e \<Rightarrow> (Inl e, s2)
                       | Inr fourier_f_idx \<Rightarrow>
                          (let (ca, s3) = alloc (ComplexArr (replicate C 0)) s2;
                               s4 = coes_loop_st xa ha ca fourier_f_idx 0 chunks s3;
                               coes = complex_array s4 ca
                           in (Inr (abs_div (lcs_num_of coes) (lcs_denom_of coes)), s4))))))"

fun lcs_loop_st ::
  "nat \<Rightarrow> real \<Rightarrow> real \<Rightarrow> real \<Rightarrow> nat \<Rightarrow> nat \<Rightarrow> real list \<Rightarrow> store
     \<Rightarrow> (error + unit) \<times> store" where
  "lcs_loop_st xa s_rate n_cycles f_step la ind [] s = (Inr (), s)"
| "lcs_loop_st xa s_rate n_cycles f_step la ind (freq # freqs) s =
     (case lagged_coherence_1freq_st xa freq s_rate n_cycles f_step s of
        (Inl e, s') \<Rightarrow> (Inl e, s')
      | (Inr v, s') \<Rightarrow>
          lcs_loop_st xa s_rate n_cycles f_step la (Suc ind) freqs (setitem_float la ind v s'))"

definition lagged_coherence_st ::
  "nat \<Rightarrow> real \<times> real \<Rightarrow> real \<Rightarrow> real \<Rightarrow> real \<Rightarrow> bool \<Rightarrow> store
     \<Rightarrow> (error + result) \<times> store" where
  "lagged_coherence_st xa f_range s_rate n_cycles f_step return_spectrum s =
     (case freqs_of f_range f_step of
        Inl e \<Rightarrow> (Inl e, s)
      | Inr freqs \<Rightarrow>
         (let (fa, s1) = alloc (RealArr freqs) s;
              (la, s2) = alloc (FloatArr (replicate (length freqs) (Fin 0))) s1
          in case lcs_loop_st xa s_rate n_cycles f_step la 0 (real_array s2 fa) s2 of
               (Inl e, s3) \<Rightarrow> (Inl e, s3)
             | (Inr u, s3) \<Rightarrow>
                 if return_spectrum
                 then (Inr (Spectrum (float_array s3 la) (real_array s3 fa)), s3)
                 else (Inr (Scalar (np_mean (float_array s3 la))), s3)))"

text \<open>
  What a computation leaves alone: every address allocated before it holds the array it
  held, and addresses are only ever added.
\<close>

definition preserves :: "store \<Rightarrow> store \<Rightarrow> bool" where
  "preserves s s' = (fresh s \<le> fresh s' \<and> (\<forall>a<fresh s. cells s' a = cells s a))"

section \<open>Notions used to state the properties\<close>

text \<open>The tapered Fourier coefficient of one chunk at bin \<open>idx\<close>.\<close>

definition chunk_coef :: "real list \<Rightarrow> nat \<Rightarrow> real list \<Rightarrow> complex" where
  "chunk_coef hann_window idx c = fft (map complex_of_real (map2 (*) c hann_window)) ! idx"

text \<open>Chunk \<open>i\<close> of a signal cut into chunks of \<open>N\<close> samples.\<close>

definition spec_chunk :: "real list \<Rightarrow> nat \<Rightarrow> nat \<Rightarrow> real list" where
  "spec_chunk x N i = take N (drop (i * N) x)"



text \<open>The frequency of bin \<open>j\<close> of the DFT grid for \<open>n\<close> samples at rate \<open>s_rate\<close>.\<close>

definition bin_freq :: "nat \<Rightarrow> real \<Rightarrow> nat \<Rightarrow> real" where
  "bin_freq n s_rate j =
     (if j \<le> (n - 1) div 2 then real j else real j - real n) * s_rate / real n"


section \<open>Windowing\<close>

lemma length_reshape_rows: "length (reshape_rows r c xs) = r"
  by (induction r arbitrary: xs) simp_all

lemma nth_reshape_rows:
  "i < r \<Longrightarrow> reshape_rows r c xs ! i = take c (drop (i * c) xs)"
proof (induction r arbitrary: xs i)
  case 0
  then show ?case by simp
next
  case (Suc r)
  show ?case
  proof (cases i)
    case 0
    then show ?thesis by simp
  next
    case (Suc j)
    with Suc.prems have "j < r" by simp
    from Suc.IH [OF this, of "drop c xs"] Suc show ?thesis
      by (simp add: add.commute)
  qed
qed

lemma concat_reshape_rows: "concat (reshape_rows r c xs) = take (r * c) xs"
proof (induction r arbitrary: xs)
  case 0
  then show ?case by simp
next
  case (Suc r)
  have "take c xs @ take (r * c) (drop c xs) = take (c + r * c) xs"
    by (simp add: take_add)
  with Suc show ?case by simp
qed

lemma row_length_reshape_rows:
  assumes "r * c \<le> length xs" and "row \<in> set (reshape_rows r c xs)"
  shows "length row = c"
proof -
  from assms(2) obtain i where i: "i < r" and row: "row = reshape_rows r c xs ! i"
    by (auto simp: in_set_conv_nth length_reshape_rows)
  have "i * c + c \<le> r * c"
    using i by (metis Suc_leI mult_Suc mult_le_mono1 add.commute)
  with assms(1) have "c \<le> length xs - i * c" by linarith
  with row i show ?thesis by (simp add: nth_reshape_rows)
qed

lemma floor_nat_div: "0 < N \<Longrightarrow> \<lfloor>real L / real_of_int N\<rfloor> = int (L div nat N)"
proof -
  assume "0 < N"
  then have "real_of_int N = real (nat N)" by simp
  then show ?thesis by (simp only: floor_divide_of_nat_eq)
qed

lemma nonoverlapping_chunks_pos:
  assumes "0 < N"
  shows "nonoverlapping_chunks x N =
           Inr (reshape_rows (length x div nat N) (nat N) (take (length x div nat N * nat N) x))"
proof -
  let ?C = "length x div nat N"
  have le: "?C * nat N \<le> length x" by simp
  have prod: "nat (int ?C * N) = ?C * nat N"
    using assms by (simp add: nat_mult_distrib)
  have len: "length (take (?C * nat N) x) = ?C * nat N" using le by simp
  have C0: "\<not> int ?C < 0" by simp
  have N0: "\<not> N < 0" "N \<noteq> 0" using assms by simp_all
  have "nonoverlapping_chunks x N = np_reshape (take (?C * nat N) x) (int ?C) N"
    unfolding nonoverlapping_chunks_def Let_def floor_nat_div [OF assms] prod
    using N0 by simp
  also have "\<dots> = Inr (reshape_rows ?C (nat N) (take (?C * nat N) x))"
    unfolding np_reshape_def Let_def len using C0 N0 by simp
  finally show ?thesis .
qed

text \<open>
  Claim C6. For a signal of length \<open>L\<close> and a positive chunk length \<open>N\<close>,
  \<^verbatim>\<open>_nonoverlapping_chunks\<close> returns exactly \<open>L div N\<close> chunks, each of exactly
  \<open>N\<close> samples; chunk \<open>i\<close> holds the samples \<open>i * N, ..., i * N + N - 1\<close> in their
  order, and the signal is the chunks in sequence followed by the dropped remainder.
\<close>

theorem nonoverlapping_chunks_floor_div:
  assumes "0 < N"
  shows "\<exists>chunks. nonoverlapping_chunks x N = Inr chunks
           \<and> length chunks = length x div nat N
           \<and> (\<forall>c \<in> set chunks. length c = nat N)
           \<and> (\<forall>i < length chunks. chunks ! i = take (nat N) (drop (i * nat N) x))
           \<and> x = concat chunks @ drop (length x div nat N * nat N) x"
proof -
  define C where "C = length x div nat N"
  define n where "n = nat N"
  define xs where "xs = take (C * n) x"
  define chunks where "chunks = reshape_rows C n xs"
  have le: "C * n \<le> length x" unfolding C_def n_def by simp
  have lenxs: "C * n \<le> length xs" unfolding xs_def using le by simp
  have 1: "nonoverlapping_chunks x N = Inr chunks"
    unfolding chunks_def xs_def C_def n_def by (rule nonoverlapping_chunks_pos [OF assms])
  have 2: "length chunks = C" unfolding chunks_def by (rule length_reshape_rows)
  have 3: "\<forall>c \<in> set chunks. length c = n"
    unfolding chunks_def using row_length_reshape_rows [OF lenxs] by blast
  have 4: "\<forall>i < length chunks. chunks ! i = take n (drop (i * n) x)"
  proof (intro allI impI)
    fix i assume "i < length chunks"
    then have i: "i < C" using 2 by simp
    then have "Suc i * n \<le> C * n" by (intro mult_le_mono1) simp
    then have "n \<le> C * n - i * n" by simp
    then have "take n (drop (i * n) xs) = take n (drop (i * n) x)"
      unfolding xs_def by (simp add: drop_take)
    moreover have "chunks ! i = take n (drop (i * n) xs)"
      unfolding chunks_def by (rule nth_reshape_rows [OF i])
    ultimately show "chunks ! i = take n (drop (i * n) x)" by simp
  qed
  have "concat chunks = take (C * n) x"
    unfolding chunks_def xs_def by (simp only: concat_reshape_rows take_take min.idem)
  then have 5: "x = concat chunks @ drop (C * n) x" by simp
  show ?thesis
    using 1 2 3 4 5 unfolding C_def n_def by (intro exI [of _ chunks] conjI)
qed


theorem nonoverlapping_chunks_floor_div_witness:
  "(0::int) < 30 \<and> (0::int) < 101
   \<and> (\<exists>chunks. nonoverlapping_chunks (map real [0..<100]) 30 = Inr chunks
          \<and> length chunks = 3 \<and> chunks ! 2 = map real [60..<90])
   \<and> (\<exists>chunks. nonoverlapping_chunks (map real [0..<100]) 101 = Inr chunks
          \<and> length chunks = 0)"
proof -
  define x where "x = map real [0..<100]"
  have len: "length x = 100" unfolding x_def by simp
  have p30: "(0::int) < 30" and p101: "(0::int) < 101" by simp_all
  from nonoverlapping_chunks_floor_div [OF p30, of x]
  obtain c30 where a: "nonoverlapping_chunks x 30 = Inr c30"
    and b: "length c30 = length x div nat 30"
    and c: "\<forall>i < length c30. c30 ! i = take (nat 30) (drop (i * nat 30) x)"
    by blast
  from nonoverlapping_chunks_floor_div [OF p101, of x]
  obtain c101 where d: "nonoverlapping_chunks x 101 = Inr c101"
    and e: "length c101 = length x div nat 101"
    by blast
  have b': "length c30 = 3" using b len by simp
  have "c30 ! 2 = take (nat 30) (drop (2 * nat 30) x)" using c b' by simp
  also have "\<dots> = map real [60..<90]"
    unfolding x_def by (simp add: take_map drop_map)
  finally have c': "c30 ! 2 = map real [60..<90]" .
  have e': "length c101 = 0" using e len by simp
  from a b' c' d e' p30 p101 show ?thesis unfolding x_def by blast
qed

section \<open>The coefficient loop, the numerator and the Cauchy--Schwarz bound\<close>

lemma coes_loop_general:
  "i2 + length cs \<le> length coes \<Longrightarrow>
   coes_loop hw idx coes i2 cs =
     take i2 coes @ map (chunk_coef hw idx) cs @ drop (i2 + length cs) coes"
proof (induction cs arbitrary: coes i2)
  case Nil
  then show ?case by simp
next
  case (Cons c cs)
  let ?v = "chunk_coef hw idx c"
  have len: "Suc i2 + length cs \<le> length (coes[i2 := ?v])" using Cons.prems by simp
  have i2: "i2 < length coes" using Cons.prems by simp
  have "coes_loop hw idx coes i2 (c # cs) = coes_loop hw idx (coes[i2 := ?v]) (Suc i2) cs"
    by (simp add: chunk_coef_def)
  also have "\<dots> = take (Suc i2) (coes[i2 := ?v]) @ map (chunk_coef hw idx) cs
                  @ drop (Suc i2 + length cs) (coes[i2 := ?v])"
    using Cons.IH [OF len] .
  also have "take (Suc i2) (coes[i2 := ?v]) = take i2 coes @ [?v]"
    using i2 by (simp add: take_Suc_conv_app_nth)
  also have "drop (Suc i2 + length cs) (coes[i2 := ?v]) = drop (i2 + length (c # cs)) coes"
    by simp
  finally show ?case by simp
qed

lemma coes_loop_map:
  "coes_loop hw idx (replicate (length cs) 0) 0 cs = map (chunk_coef hw idx) cs"
  using coes_loop_general [of 0 cs "replicate (length cs) 0" hw idx] by simp

lemma fold_add_sum:
  "fold (\<lambda>i acc. acc + g i) is (a::complex) = a + (\<Sum>i\<leftarrow>is. g i)"
  by (induction "is" arbitrary: a) (simp_all add: add.assoc)

lemma lcs_num_of_sum:
  "lcs_num_of coes = (\<Sum>i<length coes - 1. coes ! i * cnj (coes ! (i + 1)))"
proof -
  have n: "nat (int (length coes) - 1) = length coes - 1" by simp
  show ?thesis
    unfolding lcs_num_of_def n fold_add_sum
    by (simp add: sum_list_sum_nth atLeast0LessThan)
qed

lemma lcs_num_of_zip:
  "lcs_num_of coes = (\<Sum>(a, b)\<leftarrow>zip (butlast coes) (drop 1 coes). a * cnj b)"
proof -
  have "(\<Sum>(a, b)\<leftarrow>zip (butlast coes) (drop 1 coes). a * cnj b)
        = (\<Sum>i<length coes - 1. coes ! i * cnj (coes ! (i + 1)))"
    by (simp add: sum_list_sum_nth atLeast0LessThan nth_butlast)
  then show ?thesis by (simp add: lcs_num_of_sum)
qed

lemma two_dim_cs:
  fixes p q r s :: real
  shows "(p * q + r * s)\<^sup>2 \<le> (p\<^sup>2 + r\<^sup>2) * (q\<^sup>2 + s\<^sup>2)"
proof -
  have "(p\<^sup>2 + r\<^sup>2) * (q\<^sup>2 + s\<^sup>2) - (p * q + r * s)\<^sup>2 = (p * s - r * q)\<^sup>2"
    by (simp add: power2_eq_square algebra_simps)
  moreover have "0 \<le> (p * s - r * q)\<^sup>2" by simp
  ultimately show ?thesis by linarith
qed

lemma sum_list_sq_nonneg: "0 \<le> (\<Sum>z\<leftarrow>zs. (cmod z)\<^sup>2)"
  by (induction zs) simp_all

lemma cauchy_schwarz_zip:
  "length as = length bs \<Longrightarrow>
   cmod (\<Sum>(a, b)\<leftarrow>zip as bs. a * cnj b)
     \<le> sqrt ((\<Sum>z\<leftarrow>as. (cmod z)\<^sup>2) * (\<Sum>z\<leftarrow>bs. (cmod z)\<^sup>2))"
proof (induction as bs rule: list_induct2)
  case Nil
  then show ?case by simp
next
  case (Cons a as b bs)
  let ?S = "\<Sum>(a, b)\<leftarrow>zip as bs. a * cnj b"
  let ?A = "\<Sum>z\<leftarrow>as. (cmod z)\<^sup>2"
  let ?B = "\<Sum>z\<leftarrow>bs. (cmod z)\<^sup>2"
  have A: "0 \<le> ?A" and B: "0 \<le> ?B" by (rule sum_list_sq_nonneg)+
  have "cmod (a * cnj b + ?S) \<le> cmod a * cmod b + cmod ?S"
    using norm_triangle_ineq [of "a * cnj b" ?S] by (simp add: norm_mult)
  also have "\<dots> \<le> cmod a * cmod b + sqrt ?A * sqrt ?B"
    using Cons.IH by (simp add: real_sqrt_mult)
  also have "\<dots> \<le> sqrt (((cmod a)\<^sup>2 + ?A) * ((cmod b)\<^sup>2 + ?B))"
  proof (rule real_le_rsqrt)
    have "(cmod a * cmod b + sqrt ?A * sqrt ?B)\<^sup>2
           \<le> ((cmod a)\<^sup>2 + (sqrt ?A)\<^sup>2) * ((cmod b)\<^sup>2 + (sqrt ?B)\<^sup>2)"
      by (rule two_dim_cs)
    then show "(cmod a * cmod b + sqrt ?A * sqrt ?B)\<^sup>2
           \<le> ((cmod a)\<^sup>2 + ?A) * ((cmod b)\<^sup>2 + ?B)"
      using A B by simp
  qed
  finally show ?case by simp
qed

lemma num_le_denom: "cmod (lcs_num_of coes) \<le> lcs_denom_of coes"
  unfolding lcs_num_of_zip lcs_denom_of_def
  by (rule cauchy_schwarz_zip) simp


section \<open>Bin selection\<close>

lemma argmin_from_props:
  assumes "length pre = i" and "best < i" and "(pre @ ys) ! best = m"
    and "\<forall>j<i. m \<le> (pre @ ys) ! j" and "\<forall>j<best. m < (pre @ ys) ! j"
  shows "argmin_from best m i ys < length (pre @ ys)
       \<and> (\<forall>j<length (pre @ ys). (pre @ ys) ! argmin_from best m i ys \<le> (pre @ ys) ! j)
       \<and> (\<forall>j<argmin_from best m i ys.
             (pre @ ys) ! argmin_from best m i ys < (pre @ ys) ! j)"
  using assms
proof (induction ys arbitrary: pre i best m)
  case Nil
  then show ?case by simp
next
  case (Cons y ys)
  have full: "(pre @ [y]) @ ys = pre @ y # ys" by simp
  have len: "length (pre @ [y]) = Suc i" using Cons.prems(1) by simp
  have yi: "(pre @ y # ys) ! i = y" using Cons.prems(1) by (simp add: nth_append)
  show ?case
  proof (cases "y < m")
    case True
    have a: "i < Suc i" by simp
    have b: "((pre @ [y]) @ ys) ! i = y" using yi by simp
    have c: "\<forall>j<Suc i. y \<le> ((pre @ [y]) @ ys) ! j"
    proof (intro allI impI)
      fix j assume "j < Suc i"
      then consider "j < i" | "j = i" by linarith
      then show "y \<le> ((pre @ [y]) @ ys) ! j"
      proof cases
        case 1
        with Cons.prems(4) have "m \<le> (pre @ y # ys) ! j" by blast
        with True show ?thesis by simp
      next
        case 2
        with yi show ?thesis by simp
      qed
    qed
    have d: "\<forall>j<i. y < ((pre @ [y]) @ ys) ! j"
    proof (intro allI impI)
      fix j assume "j < i"
      with Cons.prems(4) have "m \<le> (pre @ y # ys) ! j" by blast
      with True show "y < ((pre @ [y]) @ ys) ! j" by simp
    qed
    from Cons.IH [OF len a b c d] True show ?thesis
      unfolding full by simp
  next
    case False
    have a: "best < Suc i" using Cons.prems(2) by simp
    have b: "((pre @ [y]) @ ys) ! best = m" using Cons.prems(3) by simp
    have c: "\<forall>j<Suc i. m \<le> ((pre @ [y]) @ ys) ! j"
    proof (intro allI impI)
      fix j assume "j < Suc i"
      then consider "j < i" | "j = i" by linarith
      then show "m \<le> ((pre @ [y]) @ ys) ! j"
      proof cases
        case 1
        with Cons.prems(4) show ?thesis by simp
      next
        case 2
        with yi False show ?thesis by simp
      qed
    qed
    have d: "\<forall>j<best. m < ((pre @ [y]) @ ys) ! j" using Cons.prems(5) by simp
    from Cons.IH [OF len a b c d] False show ?thesis
      unfolding full by simp
  qed
qed

lemma argmin_first_least:
  assumes "ys \<noteq> []"
  shows "\<exists>k. argmin ys = Inr k \<and> k < length ys
           \<and> (\<forall>j<length ys. ys ! k \<le> ys ! j) \<and> (\<forall>j<k. ys ! k < ys ! j)"
proof -
  from assms obtain y ys' where ys: "ys = y # ys'" by (cases ys) auto
  have "argmin_from 0 y 1 ys' < length ([y] @ ys')
       \<and> (\<forall>j<length ([y] @ ys'). ([y] @ ys') ! argmin_from 0 y 1 ys' \<le> ([y] @ ys') ! j)
       \<and> (\<forall>j<argmin_from 0 y 1 ys'.
             ([y] @ ys') ! argmin_from 0 y 1 ys' < ([y] @ ys') ! j)"
    by (rule argmin_from_props) simp_all
  then show ?thesis by (simp add: ys argmin_def)
qed

lemma length_fftfreq: "0 < n \<Longrightarrow> length (fftfreq n d) = nat n"
  unfolding fftfreq_def Let_def by simp

lemma nth_fftfreq:
  assumes "0 < n" and "j < nat n"
  shows "fftfreq n (1 / s_rate) ! j = bin_freq (nat n) s_rate j"
proof -
  let ?h = "(n - 1) div 2"
  let ?bins = "[0..?h] @ [- (n div 2)..- 1]"
  have h0: "0 \<le> ?h" using assms(1) by simp
  have l1: "length [0..?h] = nat (?h + 1)" by simp
  have lb: "length ?bins = nat n" using assms(1) by simp
  have hn: "(nat n - 1) div 2 = nat ?h"
    using assms(1) by (simp add: nat_div_distrib nat_diff_distrib)
  have bin: "real_of_int (?bins ! j)
               = (if j \<le> (nat n - 1) div 2 then real j else real j - real (nat n))"
  proof (cases "j \<le> (nat n - 1) div 2")
    case True
    then have jl: "j < length [0..?h]" using hn h0 by simp
    have "0 + int j \<le> ?h" using True hn h0 by linarith
    then have "[0..?h] ! j = 0 + int j" by (rule nth_upto)
    with jl True show ?thesis by (simp add: nth_append)
  next
    case False
    then have jl: "\<not> j < length [0..?h]" using hn h0 by simp
    let ?k = "j - length [0..?h]"
    have k: "int ?k = int j - (?h + 1)" using jl h0 by simp
    have "- (n div 2) + int ?k \<le> - 1" using k assms by simp
    then have "[- (n div 2)..- 1] ! ?k = - (n div 2) + int ?k" by (rule nth_upto)
    also have "\<dots> = int j - n" using k by simp
    finally have "?bins ! j = int j - n" using jl by (simp add: nth_append)
    with False assms(1) show ?thesis by simp
  qed
  have "fftfreq n (1 / s_rate) ! j = real_of_int (?bins ! j) * (1 / (real_of_int n * (1 / s_rate)))"
  proof -
    have "j < length ?bins" using assms(2) lb by simp
    then show ?thesis unfolding fftfreq_def Let_def by (rule nth_map)
  qed
  also have "\<dots> = bin_freq (nat n) s_rate j"
    unfolding bin_freq_def bin using assms(1) by simp
  finally show ?thesis .
qed

section \<open>The single-frequency estimator in closed form\<close>

lemma n_samps_of_pos:
  assumes "0 < f" and "0 < s_rate" and "0 < n_cycles"
  shows "n_samps_of n_cycles s_rate f = Inr \<lceil>n_cycles * s_rate / f\<rceil>"
    and "0 < \<lceil>n_cycles * s_rate / f\<rceil>"
proof -
  show "n_samps_of n_cycles s_rate f = Inr \<lceil>n_cycles * s_rate / f\<rceil>"
    using assms(1) by (simp add: n_samps_of_def)
  have "0 < n_cycles * s_rate / f" using assms by simp
  then show "0 < \<lceil>n_cycles * s_rate / f\<rceil>" by (simp add: ceiling_less_iff)
qed

lemma fourier_f_idx_of_first_closest:
  assumes "0 < n" and "s_rate \<noteq> 0"
  shows "\<exists>k<nat n. fourier_f_idx_of n s_rate f = Inr k
           \<and> (\<forall>j<nat n. \<bar>bin_freq (nat n) s_rate k - f\<bar> \<le> \<bar>bin_freq (nat n) s_rate j - f\<bar>)
           \<and> (\<forall>j<k. \<bar>bin_freq (nat n) s_rate k - f\<bar> < \<bar>bin_freq (nat n) s_rate j - f\<bar>)"
proof -
  let ?ys = "map (\<lambda>v. \<bar>v - f\<bar>) (fftfreq n (1 / s_rate))"
  have len: "length ?ys = nat n" using assms(1) by (simp add: length_fftfreq)
  then have "?ys \<noteq> []" using assms(1) by auto
  from argmin_first_least [OF this]
  obtain k where k: "argmin ?ys = Inr k" "k < length ?ys"
    and least: "\<forall>j<length ?ys. ?ys ! k \<le> ?ys ! j" and first: "\<forall>j<k. ?ys ! k < ?ys ! j"
    by blast
  have nth: "?ys ! j = \<bar>bin_freq (nat n) s_rate j - f\<bar>" if "j < nat n" for j
  proof -
    have "j < length (fftfreq n (1 / s_rate))" using that assms(1) by (simp add: length_fftfreq)
    then have "?ys ! j = \<bar>fftfreq n (1 / s_rate) ! j - f\<bar>" by (rule nth_map)
    then show ?thesis using nth_fftfreq [OF assms(1) that] by simp
  qed
  have kn: "k < nat n" using k(2) len by simp
  have 1: "fourier_f_idx_of n s_rate f = Inr k"
    using k(1) assms(2) by (simp add: fourier_f_idx_of_def)
  have 2: "\<forall>j<nat n. \<bar>bin_freq (nat n) s_rate k - f\<bar> \<le> \<bar>bin_freq (nat n) s_rate j - f\<bar>"
  proof (intro allI impI)
    fix j assume j: "j < nat n"
    then have "?ys ! k \<le> ?ys ! j" using least len by simp
    then show "\<bar>bin_freq (nat n) s_rate k - f\<bar> \<le> \<bar>bin_freq (nat n) s_rate j - f\<bar>"
      by (simp only: nth [OF j] nth [OF kn])
  qed
  have 3: "\<forall>j<k. \<bar>bin_freq (nat n) s_rate k - f\<bar> < \<bar>bin_freq (nat n) s_rate j - f\<bar>"
  proof (intro allI impI)
    fix j assume j: "j < k"
    then have jn: "j < nat n" using kn by simp
    have "?ys ! k < ?ys ! j" using first j by blast
    then show "\<bar>bin_freq (nat n) s_rate k - f\<bar> < \<bar>bin_freq (nat n) s_rate j - f\<bar>"
      by (simp only: nth [OF jn] nth [OF kn])
  qed
  from kn 1 2 3 show ?thesis by blast
qed

lemma reshape_rows_map_upt:
  assumes "r * c \<le> length xs"
  shows "reshape_rows r c (take (r * c) xs) = map (spec_chunk xs c) [0..<r]"
proof (rule nth_equalityI)
  show "length (reshape_rows r c (take (r * c) xs)) = length (map (spec_chunk xs c) [0..<r])"
    by (simp add: length_reshape_rows)
next
  fix i assume "i < length (reshape_rows r c (take (r * c) xs))"
  then have i: "i < r" by (simp add: length_reshape_rows)
  then have "Suc i * c \<le> r * c" by (intro mult_le_mono1) simp
  then have "c \<le> r * c - i * c" by simp
  then have "take c (drop (i * c) (take (r * c) xs)) = take c (drop (i * c) xs)"
    by (simp add: drop_take)
  then show "reshape_rows r c (take (r * c) xs) ! i = map (spec_chunk xs c) [0..<r] ! i"
    using i by (simp add: nth_reshape_rows spec_chunk_def)
qed

lemma fourier_coes_rateoi_of_map:
  assumes ns: "n_samps_of n_cycles s_rate f = Inr n" and n: "0 < n"
    and k: "fourier_f_idx_of n s_rate f = Inr k"
  shows "fourier_coes_rateoi_of x f s_rate n_cycles =
           Inr (map (\<lambda>i. chunk_coef (hanning n) k (spec_chunk x (nat n) i))
                  [0..<length x div nat n])"
proof -
  let ?C = "length x div nat n"
  have le: "?C * nat n \<le> length x" by simp
  have chunks: "nonoverlapping_chunks x n = Inr (map (spec_chunk x (nat n)) [0..<?C])"
    using nonoverlapping_chunks_pos [OF n, of x] reshape_rows_map_upt [OF le] by simp
  have "fourier_coes_rateoi_of x f s_rate n_cycles =
          Inr (coes_loop (hanning n) k
                 (replicate (length (map (spec_chunk x (nat n)) [0..<?C])) 0) 0
                 (map (spec_chunk x (nat n)) [0..<?C]))"
    by (simp add: fourier_coes_rateoi_of_def ns chunks k Let_def)
  also have "\<dots> = Inr (map (chunk_coef (hanning n) k) (map (spec_chunk x (nat n)) [0..<?C]))"
    by (simp only: coes_loop_map)
  finally show ?thesis by (simp add: comp_def)
qed



lemma lcs_denom_of_nonneg: "0 \<le> lcs_denom_of coes"
  unfolding lcs_denom_of_def using sum_list_sq_nonneg by simp

lemma abs_div_cases:
  "abs_div (lcs_num_of coes) (lcs_denom_of coes) =
     (if lcs_denom_of coes = 0 then NaN
      else Fin (cmod (lcs_num_of coes) / lcs_denom_of coes))"
proof (cases "lcs_denom_of coes = 0")
  case True
  with num_le_denom [of coes] have "lcs_num_of coes = 0" by simp
  with True show ?thesis by (simp add: abs_div_def)
next
  case False
  with lcs_denom_of_nonneg [of coes] have "0 < lcs_denom_of coes" by simp
  then have "cmod (lcs_num_of coes / complex_of_real (lcs_denom_of coes))
               = cmod (lcs_num_of coes) / lcs_denom_of coes"
    by (simp add: norm_divide)
  with False show ?thesis by (simp add: abs_div_def)
qed


section \<open>A worked example\<close>

text \<open>
  Six samples at 12 Hz with windows of one cycle. At 4 Hz the window has 3 samples and
  the signal gives two chunks; at 3 Hz the window has 4 samples and only one chunk fits.
\<close>

lemma upt_2: "[0..<2] = [0, 1]" by (simp add: upt_rec)
lemma upt_3: "[0..<3] = [0, 1, 2]" by (simp add: upt_rec)
lemma upt_4: "[0..<4] = [0, 1, 2, 3]" by (simp add: upt_rec)

lemma cos_240: "cos (4 * pi / 3) = - 1 / 2"
proof -
  have "cos (4 * pi / 3) = cos (pi / 3 + pi)" by (simp add: field_simps)
  also have "\<dots> = - cos (pi / 3)" by (rule cos_periodic_pi)
  finally show ?thesis by (simp add: cos_60)
qed

lemma hanning_3: "hanning 3 = [0, 1, 0]"
  by (simp add: hanning_def upt_3)

lemma hanning_4: "hanning 4 = [0, 3 / 4, 3 / 4, 0]"
  by (simp add: hanning_def upt_4 cos_120 cos_240)

lemma idx_3: "fourier_f_idx_of 3 12 4 = Inr 1"
  by (simp add: fourier_f_idx_of_def fftfreq_def upto_rec1 Let_def argmin_def)

lemma idx_4: "fourier_f_idx_of 4 12 3 = Inr 1"
  by (simp add: fourier_f_idx_of_def fftfreq_def upto_rec1 Let_def argmin_def)

lemma chunk_coef_3: "chunk_coef [0, 1, 0] (Suc 0) [a, b, c] = complex_of_real b * cis (- (2 * pi / 3))"
  by (simp add: chunk_coef_def fft_def upt_3)

lemma cis_minus_pi: "cis (- pi) = - 1"
  by (simp add: complex_eq_iff)

lemma chunk_coef_4:
  "chunk_coef [0, 3 / 4, 3 / 4, 0] (Suc 0) [a, b, c, d] = Complex (- (3 * c / 4)) (- (3 * b / 4))"
  by (simp add: chunk_coef_def fft_def upt_4 cis_minus_pi complex_eq_iff)

lemma n_samps_examples:
  "n_samps_of 1 12 4 = Inr 3" "n_samps_of 1 12 3 = Inr 4"
  by (simp_all add: n_samps_of_def)

lemma coes_at_4:
  "fourier_coes_rateoi_of [1, 2, 3, 4, 5, 6] 4 12 1 =
     Inr [2 * cis (- (2 * pi / 3)), 5 * cis (- (2 * pi / 3))]"
proof -
  have p: "(0::int) < 3" by simp
  show ?thesis
    using fourier_coes_rateoi_of_map [OF n_samps_examples(1) p idx_3, of "[1, 2, 3, 4, 5, 6]"]
    by (simp add: upt_2 spec_chunk_def hanning_3 chunk_coef_3)
qed

lemma coes_at_3:
  "fourier_coes_rateoi_of [1, 2, 3, 4, 5, 6] 3 12 1 = Inr [Complex (- (9 / 4)) (- (3 / 2))]"
proof -
  have p: "(0::int) < 4" by simp
  show ?thesis
    using fourier_coes_rateoi_of_map [OF n_samps_examples(2) p idx_4, of "[1, 2, 3, 4, 5, 6]"]
    by (simp add: spec_chunk_def hanning_4 chunk_coef_4)
qed

lemma lcs_num_pair: "lcs_num_of [a, b] = a * cnj b"
  by (simp add: lcs_num_of_def)

lemma lcs_denom_pair: "lcs_denom_of [a, b] = cmod a * cmod b"
  by (simp add: lcs_denom_of_def real_sqrt_mult)

lemma lcs_num_single: "lcs_num_of [a] = 0"
  by (simp add: lcs_num_of_def)

lemma lcs_denom_single: "lcs_denom_of [a] = 0"
  by (simp add: lcs_denom_of_def)

lemma lc_at_4: "lagged_coherence_1freq [1, 2, 3, 4, 5, 6] 4 12 1 1 = Inr (Fin 1)"
  by (simp add: lagged_coherence_1freq_def coes_at_4 lcs_num_pair lcs_denom_pair
        abs_div_def norm_mult norm_divide)

lemma lc_at_3: "lagged_coherence_1freq [1, 2, 3, 4, 5, 6] 3 12 1 1 = Inr NaN"
  by (simp add: lagged_coherence_1freq_def coes_at_3 lcs_num_single lcs_denom_single
        abs_div_def)

lemma freqs_3_4: "freqs_of (3, 4) 1 = Inr [3, 4]"
  by (simp add: freqs_of_def arange_def upt_2)

lemma sweep_spectrum:
  "lagged_coherence [1, 2, 3, 4, 5, 6] (3, 4) 12 1 1 True = Inr (Spectrum [NaN, Fin 1] [3, 4])"
  by (simp add: lagged_coherence_def freqs_3_4 lc_at_3 lc_at_4 numeral_2_eq_2)

lemma sweep_scalar:
  "lagged_coherence [1, 2, 3, 4, 5, 6] (3, 4) 12 1 1 False = Inr (Scalar NaN)"
  by (simp add: lagged_coherence_def freqs_3_4 lc_at_3 lc_at_4 numeral_2_eq_2
        np_mean_def np_sum_def)

section \<open>The single-frequency estimator\<close>






section \<open>The sweep\<close>

lemma lcs_loop_values:
  assumes "\<forall>f\<in>set freqs. \<exists>v. lagged_coherence_1freq x f s_rate n_cycles f_step = Inr v"
    and "ind + length freqs \<le> length lcs"
  shows "\<exists>vs. lcs_loop x s_rate n_cycles f_step lcs ind freqs =
                 Inr (take ind lcs @ vs @ drop (ind + length freqs) lcs)
             \<and> length vs = length freqs
             \<and> (\<forall>i<length freqs.
                   lagged_coherence_1freq x (freqs ! i) s_rate n_cycles f_step = Inr (vs ! i))"
  using assms
proof (induction freqs arbitrary: lcs ind)
  case Nil
  then show ?case by simp
next
  case (Cons f fs)
  from Cons.prems(1) obtain v
    where v: "lagged_coherence_1freq x f s_rate n_cycles f_step = Inr v" by auto
  have all: "\<forall>g\<in>set fs. \<exists>v. lagged_coherence_1freq x g s_rate n_cycles f_step = Inr v"
    using Cons.prems(1) by simp
  have ind: "ind < length lcs" using Cons.prems(2) by simp
  have len: "Suc ind + length fs \<le> length (lcs[ind := v])" using Cons.prems(2) by simp
  from Cons.IH [OF all len] obtain vs
    where loop: "lcs_loop x s_rate n_cycles f_step (lcs[ind := v]) (Suc ind) fs =
                   Inr (take (Suc ind) (lcs[ind := v]) @ vs
                        @ drop (Suc ind + length fs) (lcs[ind := v]))"
      and lvs: "length vs = length fs"
      and nth: "\<forall>i<length fs.
                  lagged_coherence_1freq x (fs ! i) s_rate n_cycles f_step = Inr (vs ! i)"
    by blast
  have t: "take (Suc ind) (lcs[ind := v]) = take ind lcs @ [v]"
    using ind by (simp add: take_Suc_conv_app_nth)
  have d: "drop (Suc ind + length fs) (lcs[ind := v]) = drop (ind + length (f # fs)) lcs"
    by simp
  have 1: "lcs_loop x s_rate n_cycles f_step lcs ind (f # fs) =
             Inr (take ind lcs @ (v # vs) @ drop (ind + length (f # fs)) lcs)"
    using loop unfolding t d by (simp add: v)
  have 2: "length (v # vs) = length (f # fs)" using lvs by simp
  have 3: "\<forall>i<length (f # fs).
             lagged_coherence_1freq x ((f # fs) ! i) s_rate n_cycles f_step = Inr ((v # vs) ! i)"
  proof (intro allI impI)
    fix i assume "i < length (f # fs)"
    then show "lagged_coherence_1freq x ((f # fs) ! i) s_rate n_cycles f_step
                 = Inr ((v # vs) ! i)"
      using v nth by (cases i) simp_all
  qed
  from 1 2 3 show ?case by blast
qed

lemma lcs_loop_fresh:
  assumes "\<forall>f\<in>set freqs. \<exists>v. lagged_coherence_1freq x f s_rate n_cycles f_step = Inr v"
  shows "\<exists>vs. lcs_loop x s_rate n_cycles f_step (replicate (length freqs) (Fin 0)) 0 freqs = Inr vs
             \<and> length vs = length freqs
             \<and> (\<forall>i<length freqs.
                   lagged_coherence_1freq x (freqs ! i) s_rate n_cycles f_step = Inr (vs ! i))"
  using lcs_loop_values [OF assms, of 0 "replicate (length freqs) (Fin 0)"] by simp

section \<open>The mean\<close>

lemma fold_np_add_NaN: "fold (\<lambda>v acc. np_add acc v) vs NaN = NaN"
  by (induction vs) simp_all

lemma np_add_NaN_right: "np_add a NaN = NaN"
  by (cases a) simp_all

lemma fold_np_add_mem_NaN: "NaN \<in> set vs \<Longrightarrow> fold (\<lambda>v acc. np_add acc v) vs a = NaN"
proof (induction vs arbitrary: a)
  case Nil
  then show ?case by simp
next
  case (Cons v vs)
  show ?case
  proof (cases "v = NaN")
    case True
    then show ?thesis by (simp add: np_add_NaN_right fold_np_add_NaN)
  next
    case False
    with Cons.prems have "NaN \<in> set vs" by simp
    from Cons.IH [OF this] show ?thesis by simp
  qed
qed

lemma np_mean_NaN: "NaN \<in> set vs \<Longrightarrow> np_mean vs = NaN"
  by (simp add: np_mean_def np_sum_def fold_np_add_mem_NaN)

lemma fold_np_add_Fin:
  "fold (\<lambda>v acc. np_add acc v) (map Fin rs) (Fin a) = Fin (a + sum_list rs)"
  by (induction rs arbitrary: a) (simp_all add: add.assoc)

lemma np_mean_Fin:
  "np_mean (map Fin rs) = (if rs = [] then NaN else Fin (sum_list rs / real (length rs)))"
  by (simp add: np_mean_def np_sum_def fold_np_add_Fin)

text \<open>
  Claim C7. For all arguments, the scalar mode returns the mean of the values that the
  spectrum mode returns for the same arguments (and raises when the spectrum mode
  raises); on finite values that mean is their sum divided by their number.
\<close>

theorem scalar_is_mean_of_spectrum:
  "lagged_coherence x f_range s_rate n_cycles f_step False =
     (case lagged_coherence x f_range s_rate n_cycles f_step True of
        Inl e \<Rightarrow> Inl e
      | Inr (Spectrum lcs freqs) \<Rightarrow> Inr (Scalar (np_mean lcs))
      | Inr (Scalar v) \<Rightarrow> Inr (Scalar v))
   \<and> np_mean (map Fin rs) = (if rs = [] then NaN else Fin (sum_list rs / real (length rs)))"
proof
  show "lagged_coherence x f_range s_rate n_cycles f_step False =
     (case lagged_coherence x f_range s_rate n_cycles f_step True of
        Inl e \<Rightarrow> Inl e
      | Inr (Spectrum lcs freqs) \<Rightarrow> Inr (Scalar (np_mean lcs))
      | Inr (Scalar v) \<Rightarrow> Inr (Scalar v))"
    by (simp add: lagged_coherence_def split: sum.splits)
  show "np_mean (map Fin rs) = (if rs = [] then NaN else Fin (sum_list rs / real (length rs)))"
    by (rule np_mean_Fin)
qed

section \<open>The frequencies of the sweep\<close>

lemma freqs_of_closed_form:
  assumes "0 < step" and "low \<le> high"
  shows "freqs_of (low, high) step =
           Inr (map (\<lambda>i. low + real i * step) [0..<Suc (nat \<lceil>(high - low) / step\<rceil>)])"
proof -
  have "(high + step - low) / step = (high - low) / step + 1"
    using assms(1) by (simp add: field_simps)
  then have c: "\<lceil>(high + step - low) / step\<rceil> = \<lceil>(high - low) / step\<rceil> + 1"
    by simp
  define k where "k = \<lceil>(high - low) / step\<rceil>"
  have "0 \<le> (high - low) / step" using assms by simp
  then have "0 \<le> k" unfolding k_def by (simp add: zero_le_ceiling)
  then have "nat (k + 1) = Suc (nat k)" by simp
  then have "nat (\<lceil>(high - low) / step\<rceil> + 1) = Suc (nat \<lceil>(high - low) / step\<rceil>)"
    unfolding k_def .
  with c assms(1) show ?thesis by (simp add: freqs_of_def arange_def)
qed


lemma freqs_of_lower_bound:
  assumes "0 < step" and "freqs_of (low, high) step = Inr fs" and "f \<in> set fs"
  shows "low \<le> f"
proof -
  from assms(1,2) have "fs = map (\<lambda>i. low + real i * step) [0..<nat \<lceil>(high + step - low) / step\<rceil>]"
    by (simp add: freqs_of_def arange_def)
  with assms(3) obtain i where "f = low + real i * step" by auto
  with assms(1) show ?thesis by simp
qed

lemma freqs_of_last:
  assumes "0 < step" and "low \<le> high"
  shows "\<exists>fs. freqs_of (low, high) step = Inr fs \<and> fs \<noteq> []
           \<and> last fs = low + real_of_int \<lceil>(high - low) / step\<rceil> * step"
proof -
  let ?n = "nat \<lceil>(high - low) / step\<rceil>"
  let ?fs = "map (\<lambda>i. low + real i * step) [0..<Suc ?n]"
  define k where "k = \<lceil>(high - low) / step\<rceil>"
  have "0 \<le> (high - low) / step" using assms by simp
  then have "0 \<le> k" unfolding k_def by (simp add: zero_le_ceiling)
  then have "real (nat k) = real_of_int k" by simp
  then have n: "real ?n = real_of_int \<lceil>(high - low) / step\<rceil>" unfolding k_def .
  have "last ?fs = low + real ?n * step" by (simp add: last_map del: upt_Suc)
  then have "last ?fs = low + real_of_int \<lceil>(high - low) / step\<rceil> * step"
    by (simp only: n)
  moreover have "?fs \<noteq> []" by simp
  ultimately show ?thesis using freqs_of_closed_form [OF assms] by blast
qed

lemma freqs_of_overshoot:
  assumes "0 < step" and "low \<le> high"
    and "real_of_int \<lfloor>(high - low) / step\<rfloor> \<noteq> (high - low) / step"
  shows "\<exists>fs. freqs_of (low, high) step = Inr fs \<and> fs \<noteq> [] \<and> high < last fs"
proof -
  let ?q = "(high - low) / step"
  from freqs_of_last [OF assms(1,2)] obtain fs
    where fs: "freqs_of (low, high) step = Inr fs" "fs \<noteq> []"
      and l: "last fs = low + real_of_int \<lceil>?q\<rceil> * step" by blast
  have "?q \<noteq> real_of_int \<lceil>?q\<rceil>"
  proof
    assume "?q = real_of_int \<lceil>?q\<rceil>"
    then have "real_of_int \<lfloor>?q\<rfloor> = ?q" by (metis floor_of_int)
    with assms(3) show False by simp
  qed
  with le_of_int_ceiling [of ?q] have "?q < real_of_int \<lceil>?q\<rceil>" by (rule le_neq_trans)
  then have "?q * step < real_of_int \<lceil>?q\<rceil> * step"
    using assms(1) by (rule mult_strict_right_mono)
  moreover have "?q * step = high - low" using assms(1) by simp
  ultimately have "high - low < real_of_int \<lceil>?q\<rceil> * step" by simp
  with l have "high < last fs" by simp
  with fs show ?thesis by blast
qed

lemma freqs_of_exact:
  assumes "0 < step" and "low \<le> high"
    and "real_of_int \<lfloor>(high - low) / step\<rfloor> = (high - low) / step"
  shows "\<exists>fs. freqs_of (low, high) step = Inr fs \<and> fs \<noteq> [] \<and> last fs = high"
proof -
  let ?q = "(high - low) / step"
  from freqs_of_last [OF assms(1,2)] obtain fs
    where fs: "freqs_of (low, high) step = Inr fs" "fs \<noteq> []"
      and l: "last fs = low + real_of_int \<lceil>?q\<rceil> * step" by blast
  have "real_of_int \<lceil>?q\<rceil> = ?q" by (metis assms(3) ceiling_of_int)
  then have "real_of_int \<lceil>?q\<rceil> * step = ?q * step" by (simp only:)
  moreover have "?q * step = high - low" using assms(1) by simp
  ultimately have "real_of_int \<lceil>?q\<rceil> * step = high - low" by simp
  with l have "last fs = high" by simp
  with fs show ?thesis by blast
qed

text \<open>
  Claim C1, evaluated on the program. For the range \<open>(8, 12)\<close> with step \<open>1\<close> the
  frequencies are \<open>8, ..., 12\<close>. For the range \<open>(8, 12.5)\<close> with step \<open>1\<close> the stop
  value \<open>high + step\<close> admits one more element: the sequence ends with \<open>13\<close>, which
  exceeds \<open>high\<close>.
\<close>

theorem freqs_of_overshoots_range:
  "freqs_of (8, 12) 1 = Inr [8, 9, 10, 11, 12]
   \<and> freqs_of (8, 12.5) 1 = Inr [8, 9, 10, 11, 12, 13]
   \<and> (12.5 :: real) < last [8, 9, 10, 11, 12, 13]"
  by (simp add: freqs_of_def arange_def upt_rec)

section \<open>Values of the estimator\<close>


lemma lagged_coherence_1freq_total:
  assumes "0 < f" and "0 < s_rate" and "0 < n_cycles"
  shows "\<exists>coes. fourier_coes_rateoi_of x f s_rate n_cycles = Inr coes
           \<and> length coes = length x div nat \<lceil>n_cycles * s_rate / f\<rceil>
           \<and> lagged_coherence_1freq x f s_rate n_cycles f_step =
               Inr (abs_div (lcs_num_of coes) (lcs_denom_of coes))"
proof -
  let ?n = "\<lceil>n_cycles * s_rate / f\<rceil>"
  note ns = n_samps_of_pos [OF assms]
  have sr: "s_rate \<noteq> 0" using assms(2) by simp
  from fourier_f_idx_of_first_closest [OF ns(2) sr, of f]
  obtain k where k: "fourier_f_idx_of ?n s_rate f = Inr k" by blast
  note coes = fourier_coes_rateoi_of_map [OF ns(1) ns(2) k, of x]
  show ?thesis
    by (simp add: coes lagged_coherence_1freq_def)
qed

lemma lcs_denom_of_short: "length coes < 2 \<Longrightarrow> lcs_denom_of coes = 0"
proof -
  assume "length coes < 2"
  then have "length (butlast coes) = 0" by simp
  then have "butlast coes = []" by (simp only: length_0_conv)
  then show ?thesis by (simp add: lcs_denom_of_def)
qed

lemma degenerate_freq_NaN:
  assumes "0 < f" and "0 < s_rate" and "0 < n_cycles"
    and "length x div nat \<lceil>n_cycles * s_rate / f\<rceil> < 2"
  shows "lagged_coherence_1freq x f s_rate n_cycles f_step = Inr NaN"
proof -
  from lagged_coherence_1freq_total [OF assms(1-3), of x f_step] obtain coes
    where len: "length coes = length x div nat \<lceil>n_cycles * s_rate / f\<rceil>"
      and lc: "lagged_coherence_1freq x f s_rate n_cycles f_step =
                 Inr (abs_div (lcs_num_of coes) (lcs_denom_of coes))"
    by blast
  have "lcs_denom_of coes = 0" using len assms(4) by (intro lcs_denom_of_short) simp
  then show ?thesis unfolding lc abs_div_cases by simp
qed








text \<open>
  Claim C2, as the program has it. With a positive range, step, rate and cycle count, a
  frequency of the sweep whose window leaves fewer than two chunks gets the value
  \<open>NaN\<close>; the call does not fail, the value stays in the spectrum, and the mean
  returned by the scalar mode is \<open>NaN\<close>.
\<close>

theorem degenerate_frequency_gives_nan:
  assumes "0 < fst f_range" and "0 < f_step" and "0 < s_rate" and "0 < n_cycles"
    and "freqs_of f_range f_step = Inr freqs" and "f \<in> set freqs"
    and "length x div nat \<lceil>n_cycles * s_rate / f\<rceil> < 2"
  shows "lagged_coherence_1freq x f s_rate n_cycles f_step = Inr NaN
       \<and> (\<exists>lcs. lagged_coherence x f_range s_rate n_cycles f_step True = Inr (Spectrum lcs freqs)
              \<and> length lcs = length freqs \<and> NaN \<in> set lcs)
       \<and> lagged_coherence x f_range s_rate n_cycles f_step False = Inr (Scalar NaN)"
proof -
  have fr: "freqs_of (fst f_range, snd f_range) f_step = Inr freqs" using assms(5) by simp
  have pos: "0 < g" if "g \<in> set freqs" for g
    using freqs_of_lower_bound [OF assms(2) fr that] assms(1) by simp
  have total: "\<forall>g\<in>set freqs. \<exists>v. lagged_coherence_1freq x g s_rate n_cycles f_step = Inr v"
  proof
    fix g assume "g \<in> set freqs"
    from lagged_coherence_1freq_total [OF pos [OF this] assms(3,4), of x f_step]
    show "\<exists>v. lagged_coherence_1freq x g s_rate n_cycles f_step = Inr v" by blast
  qed
  from lcs_loop_fresh [OF total] obtain lcs
    where loop: "lcs_loop x s_rate n_cycles f_step (replicate (length freqs) (Fin 0)) 0 freqs
                   = Inr lcs"
      and len: "length lcs = length freqs"
      and nth: "\<forall>i<length freqs.
                  lagged_coherence_1freq x (freqs ! i) s_rate n_cycles f_step = Inr (lcs ! i)"
    by blast
  have nan: "lagged_coherence_1freq x f s_rate n_cycles f_step = Inr NaN"
    by (rule degenerate_freq_NaN [OF pos [OF assms(6)] assms(3,4,7)])
  from assms(6) obtain i where i: "i < length freqs" and fi: "freqs ! i = f"
    by (auto simp: in_set_conv_nth)
  with nth nan have "lcs ! i = NaN" by auto
  with i len have mem: "NaN \<in> set lcs" by (metis nth_mem)
  have 1: "lagged_coherence x f_range s_rate n_cycles f_step True = Inr (Spectrum lcs freqs)"
    by (simp add: lagged_coherence_def assms(5) loop)
  have 2: "lagged_coherence x f_range s_rate n_cycles f_step False = Inr (Scalar NaN)"
    by (simp add: lagged_coherence_def assms(5) loop np_mean_NaN [OF mem])
  from nan 1 len mem 2 show ?thesis by blast
qed


theorem degenerate_frequency_gives_nan_witness:
  "(0::real) < fst (3 :: real, 4 :: real) \<and> (0::real) < 1 \<and> (0::real) < 12
   \<and> freqs_of (3, 4) 1 = Inr [3, 4] \<and> (3::real) \<in> set [3, 4]
   \<and> length [1, 2, 3, 4, 5, 6 :: real] div nat \<lceil>(1::real) * 12 / 3\<rceil> < 2
   \<and> lagged_coherence_1freq [1, 2, 3, 4, 5, 6] 3 12 1 1 = Inr NaN
   \<and> (\<exists>lcs. lagged_coherence [1, 2, 3, 4, 5, 6] (3, 4) 12 1 1 True = Inr (Spectrum lcs [3, 4])
          \<and> length lcs = length [3, 4 :: real] \<and> NaN \<in> set lcs)
   \<and> lagged_coherence [1, 2, 3, 4, 5, 6] (3, 4) 12 1 1 False = Inr (Scalar NaN)"
proof -
  have h1: "(0::real) < fst (3 :: real, 4 :: real)" and h2: "(0::real) < 1" and h3: "(0::real) < 12"
    by simp_all
  have h6: "(3::real) \<in> set [3, 4]" by simp
  have h7: "length [1, 2, 3, 4, 5, 6 :: real] div nat \<lceil>(1::real) * 12 / 3\<rceil> < 2" by simp
  note r = degenerate_frequency_gives_nan [OF h1 h2 h3 h2 freqs_3_4 h6 h7]
  from h1 h2 h3 freqs_3_4 h6 h7 r show ?thesis by (intro conjI) blast+
qed

text \<open>
  The sweep of the worked example: the window of 3 Hz leaves one chunk, the one of 4 Hz
  two. Nothing is raised and nothing is excluded.
\<close>

theorem degenerate_sweep_mean_is_nan:
  "lagged_coherence [1, 2, 3, 4, 5, 6] (3, 4) 12 1 1 True = Inr (Spectrum [NaN, Fin 1] [3, 4])
   \<and> lagged_coherence [1, 2, 3, 4, 5, 6] (3, 4) 12 1 1 False = Inr (Scalar NaN)"
  using sweep_spectrum sweep_scalar by (rule conjI)

section \<open>Arguments that are not checked\<close>





section \<open>The input array is left alone\<close>

lemma preserves_refl: "preserves s s"
  by (simp add: preserves_def)

lemma preserves_trans: "preserves s s' \<Longrightarrow> preserves s' s'' \<Longrightarrow> preserves s s''"
  by (auto simp: preserves_def)

lemma preserves_alloc: "preserves s (snd (alloc a s))"
  by (simp add: preserves_def alloc_def)

lemma fresh_setitem_complex: "fresh (setitem_complex a i v s) = fresh s"
  by (simp add: setitem_complex_def)

lemma cells_setitem_complex_other: "b \<noteq> a \<Longrightarrow> cells (setitem_complex a i v s) b = cells s b"
  by (simp add: setitem_complex_def)

lemma fresh_setitem_float: "fresh (setitem_float a i v s) = fresh s"
  by (simp add: setitem_float_def)

lemma cells_setitem_float_other: "b \<noteq> a \<Longrightarrow> cells (setitem_float a i v s) b = cells s b"
  by (simp add: setitem_float_def)

lemma fresh_coes_loop_st: "fresh (coes_loop_st xa ha ca idx i2 rows s) = fresh s"
  by (induction rows arbitrary: i2 s) (simp_all add: Let_def fresh_setitem_complex)

lemma cells_coes_loop_st_other:
  "b \<noteq> ca \<Longrightarrow> cells (coes_loop_st xa ha ca idx i2 rows s) b = cells s b"
  by (induction rows arbitrary: i2 s) (simp_all add: Let_def cells_setitem_complex_other)

lemma preserves_coes_loop_st:
  "fresh s0 \<le> ca \<Longrightarrow> preserves s0 s \<Longrightarrow> preserves s0 (coes_loop_st xa ha ca idx i2 rows s)"
  by (simp add: preserves_def fresh_coes_loop_st cells_coes_loop_st_other)

lemma preserves_lagged_coherence_1freq_st:
  "preserves s (snd (lagged_coherence_1freq_st xa f s_rate n_cycles f_step s))"
proof (cases "n_samps_of n_cycles s_rate f")
  case (Inl e)
  then show ?thesis by (simp add: lagged_coherence_1freq_st_def preserves_refl)
next
  case ns: (Inr n_samps)
  show ?thesis
  proof (cases "nonoverlapping_chunks_view s xa n_samps")
    case (Inl e)
    with ns show ?thesis by (simp add: lagged_coherence_1freq_st_def preserves_refl)
  next
    case ch: (Inr chunks)
    define s1 where "s1 = snd (alloc (RealArr (hanning n_samps)) s)"
    define s2 where "s2 = snd (alloc (RealArr (fftfreq n_samps (1 / s_rate))) s1)"
    define s3 where "s3 = snd (alloc (ComplexArr (replicate (length chunks) 0)) s2)"
    have p1: "preserves s s1" unfolding s1_def by (rule preserves_alloc)
    have p2: "preserves s s2"
      unfolding s2_def by (rule preserves_trans [OF p1 preserves_alloc])
    have p3: "preserves s s3"
      unfolding s3_def by (rule preserves_trans [OF p2 preserves_alloc])
    have ca: "fresh s \<le> fresh s2" using p2 by (simp add: preserves_def)
    have p4: "preserves s (coes_loop_st xa ha (fresh s2) idx 0 chunks s3)" for ha idx
      by (rule preserves_coes_loop_st [OF ca p3])
    show ?thesis
      using p1 p2 p4
      by (simp add: lagged_coherence_1freq_st_def ns ch Let_def s1_def s2_def s3_def alloc_def
               split: sum.splits prod.splits)
  qed
qed

lemma lcs_loop_st_frame:
  "fresh s \<le> fresh (snd (lcs_loop_st xa s_rate n_cycles f_step la ind freqs s))
   \<and> (\<forall>a<fresh s. a \<noteq> la \<longrightarrow>
         cells (snd (lcs_loop_st xa s_rate n_cycles f_step la ind freqs s)) a = cells s a)"
proof (induction freqs arbitrary: ind s)
  case Nil
  then show ?case by simp
next
  case (Cons freq freqs)
  obtain r s' where one: "lagged_coherence_1freq_st xa freq s_rate n_cycles f_step s = (r, s')"
    by (cases "lagged_coherence_1freq_st xa freq s_rate n_cycles f_step s")
  have p: "preserves s s'"
    using preserves_lagged_coherence_1freq_st [of s xa freq s_rate n_cycles f_step] one by simp
  show ?case
  proof (cases r)
    case (Inl e)
    with one p show ?thesis by (simp add: preserves_def)
  next
    case (Inr v)
    let ?s'' = "setitem_float la ind v s'"
    from Cons.IH [where ind = "Suc ind" and s = ?s'']
    have ih: "fresh ?s'' \<le> fresh (snd (lcs_loop_st xa s_rate n_cycles f_step la (Suc ind) freqs ?s''))"
      and ih2: "\<forall>a<fresh ?s''. a \<noteq> la \<longrightarrow>
         cells (snd (lcs_loop_st xa s_rate n_cycles f_step la (Suc ind) freqs ?s'')) a = cells ?s'' a"
      by blast+
    have eq: "lcs_loop_st xa s_rate n_cycles f_step la ind (freq # freqs) s
                = lcs_loop_st xa s_rate n_cycles f_step la (Suc ind) freqs ?s''"
      using one Inr by simp
    have f: "fresh s \<le> fresh ?s''" using p by (simp add: preserves_def fresh_setitem_float)
    have c: "cells ?s'' a = cells s a" if "a < fresh s" "a \<noteq> la" for a
      using that p by (simp add: preserves_def cells_setitem_float_other)
    show ?thesis
      unfolding eq using ih ih2 f c
      by (metis (no_types, lifting) less_le_trans order_trans)
  qed
qed

lemma preserves_lagged_coherence_st:
  "preserves s (snd (lagged_coherence_st xa f_range s_rate n_cycles f_step return_spectrum s))"
proof (cases "freqs_of f_range f_step")
  case (Inl e)
  then show ?thesis by (simp add: lagged_coherence_st_def preserves_refl)
next
  case fr: (Inr freqs)
  define s1 where "s1 = snd (alloc (RealArr freqs) s)"
  define s2 where "s2 = snd (alloc (FloatArr (replicate (length freqs) (Fin 0))) s1)"
  define la where "la = fresh s1"
  define fs where "fs = real_array s2 (fresh s)"
  define s3 where "s3 = snd (lcs_loop_st xa s_rate n_cycles f_step la 0 fs s2)"
  have p2: "preserves s s2"
    unfolding s2_def s1_def by (rule preserves_trans [OF preserves_alloc preserves_alloc])
  have la: "fresh s \<le> la" unfolding la_def s1_def by (simp add: alloc_def)
  have l3: "fresh s2 \<le> fresh s3"
    and c3: "\<forall>a<fresh s2. a \<noteq> la \<longrightarrow> cells s3 a = cells s2 a"
    unfolding s3_def using lcs_loop_st_frame [of s2 xa s_rate n_cycles f_step la 0 fs] by blast+
  have p3: "preserves s s3"
    using p2 la l3 c3 unfolding preserves_def by (metis le_trans less_le_trans not_le)
  have "snd (lagged_coherence_st xa f_range s_rate n_cycles f_step return_spectrum s) = s3"
    by (simp add: lagged_coherence_st_def fr Let_def s3_def fs_def la_def s2_def s1_def alloc_def
             split: sum.splits prod.splits)
  with p3 show ?thesis by simp
qed


section \<open>The program on the store computes what the program on values computes\<close>

lemma reshape_rows_map: "reshape_rows r c (map f ys) = map (map f) (reshape_rows r c ys)"
  by (induction r arbitrary: ys) (simp_all add: take_map drop_map)

lemma np_reshape_map:
  "np_reshape (map f ys) r c =
     (case np_reshape ys r c of Inl e \<Rightarrow> Inl e | Inr rows \<Rightarrow> Inr (map (map f) rows))"
  by (simp only: np_reshape_def Let_def length_map reshape_rows_map) simp

lemma nonoverlapping_chunks_map:
  "nonoverlapping_chunks (map f ys) N =
     (case nonoverlapping_chunks ys N of Inl e \<Rightarrow> Inl e | Inr rows \<Rightarrow> Inr (map (map f) rows))"
  by (simp add: nonoverlapping_chunks_def Let_def take_map np_reshape_map)

lemma nonoverlapping_chunks_view_eq:
  assumes "cells s xa = Some (RealArr xs)"
  shows "nonoverlapping_chunks xs N =
     (case nonoverlapping_chunks_view s xa N of
        Inl e \<Rightarrow> Inl e
      | Inr rows \<Rightarrow> Inr (map (map (\<lambda>j. xs ! j)) rows))"
proof -
  have "real_array s xa = xs" using assms by (simp add: real_array_def)
  then have "nonoverlapping_chunks_view s xa N = nonoverlapping_chunks [0..<length xs] N"
    by (simp add: nonoverlapping_chunks_view_def)
  moreover have "nonoverlapping_chunks (map (\<lambda>j. xs ! j) [0..<length xs]) N =
      (case nonoverlapping_chunks [0..<length xs] N of
         Inl e \<Rightarrow> Inl e | Inr rows \<Rightarrow> Inr (map (map (\<lambda>j. xs ! j)) rows))"
    by (rule nonoverlapping_chunks_map)
  ultimately show ?thesis by (simp add: map_nth)
qed

lemma coes_loop_st_result:
  assumes "cells s xa = Some (RealArr xs)" and "cells s ha = Some (RealArr hw)"
    and "cells s ca = Some (ComplexArr coes)" and "xa \<noteq> ca" and "ha \<noteq> ca"
  shows "complex_array (coes_loop_st xa ha ca idx i2 rows s) ca =
           coes_loop hw idx coes i2 (map (map (\<lambda>j. xs ! j)) rows)"
  using assms
proof (induction rows arbitrary: i2 s coes)
  case Nil
  then show ?case by (simp add: complex_array_def)
next
  case (Cons row rows)
  define v where
    "v = fft (map complex_of_real (map2 (*) (map (\<lambda>j. xs ! j) row) hw)) ! idx"
  let ?s' = "setitem_complex ca i2 v s"
  have x: "real_array s xa = xs" using Cons.prems(1) by (simp add: real_array_def)
  have h: "real_array s ha = hw" using Cons.prems(2) by (simp add: real_array_def)
  have c: "complex_array s ca = coes" using Cons.prems(3) by (simp add: complex_array_def)
  have 1: "cells ?s' xa = Some (RealArr xs)"
    using Cons.prems(1,4) by (simp add: cells_setitem_complex_other)
  have 2: "cells ?s' ha = Some (RealArr hw)"
    using Cons.prems(2,5) by (simp add: cells_setitem_complex_other)
  have 3: "cells ?s' ca = Some (ComplexArr (coes[i2 := v]))"
    by (simp add: setitem_complex_def c)
  have "coes_loop_st xa ha ca idx i2 (row # rows) s = coes_loop_st xa ha ca idx (Suc i2) rows ?s'"
    by (simp add: Let_def x h v_def)
  moreover have "complex_array (coes_loop_st xa ha ca idx (Suc i2) rows ?s') ca =
      coes_loop hw idx (coes[i2 := v]) (Suc i2) (map (map (\<lambda>j. xs ! j)) rows)"
    by (rule Cons.IH [OF 1 2 3 Cons.prems(4,5)])
  ultimately show ?case by (simp add: Let_def v_def)
qed

lemma lagged_coherence_1freq_st_result:
  assumes "cells s xa = Some (RealArr xs)" and "xa < fresh s"
  shows "fst (lagged_coherence_1freq_st xa f s_rate n_cycles f_step s) =
           lagged_coherence_1freq xs f s_rate n_cycles f_step"
proof (cases "n_samps_of n_cycles s_rate f")
  case (Inl e)
  then show ?thesis
    by (simp add: lagged_coherence_1freq_st_def lagged_coherence_1freq_def
          fourier_coes_rateoi_of_def)
next
  case ns: (Inr n_samps)
  note view = nonoverlapping_chunks_view_eq [OF assms(1), of n_samps]
  show ?thesis
  proof (cases "nonoverlapping_chunks_view s xa n_samps")
    case (Inl e)
    with ns view show ?thesis
      by (simp add: lagged_coherence_1freq_st_def lagged_coherence_1freq_def
            fourier_coes_rateoi_of_def)
  next
    case ch: (Inr rows)
    let ?chunks = "map (map (\<lambda>j. xs ! j)) rows"
    have pure: "nonoverlapping_chunks xs n_samps = Inr ?chunks" using view ch by simp
    show ?thesis
    proof (cases "s_rate = 0")
      case True
      with ns ch pure show ?thesis
        by (simp add: lagged_coherence_1freq_st_def lagged_coherence_1freq_def
              fourier_coes_rateoi_of_def fourier_f_idx_of_def Let_def alloc_def)
    next
      case sr: False
      let ?ha = "fresh s"
      let ?fa = "Suc (fresh s)"
      let ?ca = "Suc (Suc (fresh s))"
      define s3 where
        "s3 = s\<lparr>cells := (cells s)(?ha \<mapsto> RealArr (hanning n_samps),
                                   ?fa \<mapsto> RealArr (fftfreq n_samps (1 / s_rate)),
                                   ?ca \<mapsto> ComplexArr (replicate (length rows) 0)),
                fresh := Suc ?ca\<rparr>"
      have c1: "cells s3 xa = Some (RealArr xs)" using assms by (simp add: s3_def)
      have c2: "cells s3 ?ha = Some (RealArr (hanning n_samps))" by (simp add: s3_def)
      have c3: "cells s3 ?ca = Some (ComplexArr (replicate (length rows) 0))"
        by (simp add: s3_def)
      have d1: "xa \<noteq> ?ca" using assms(2) by simp
      have d2: "?ha \<noteq> ?ca" by simp
      note loop = coes_loop_st_result [OF c1 c2 c3 d1 d2]
      show ?thesis
      proof (cases "argmin (map (\<lambda>v. \<bar>v - f\<bar>) (fftfreq n_samps (1 / s_rate)))")
        case (Inl e)
        with ns ch pure sr show ?thesis
          by (simp add: lagged_coherence_1freq_st_def lagged_coherence_1freq_def
                fourier_coes_rateoi_of_def fourier_f_idx_of_def Let_def alloc_def
                real_array_def)
      next
        case (Inr idx)
        have "fst (lagged_coherence_1freq_st xa f s_rate n_cycles f_step s) =
                Inr (abs_div (lcs_num_of (complex_array (coes_loop_st xa ?ha ?ca idx 0 rows s3) ?ca))
                       (lcs_denom_of (complex_array (coes_loop_st xa ?ha ?ca idx 0 rows s3) ?ca)))"
          using ns ch sr Inr
          by (simp add: lagged_coherence_1freq_st_def Let_def alloc_def real_array_def s3_def)
        moreover have "lagged_coherence_1freq xs f s_rate n_cycles f_step =
                Inr (abs_div (lcs_num_of (coes_loop (hanning n_samps) idx
                                            (replicate (length rows) 0) 0 ?chunks))
                       (lcs_denom_of (coes_loop (hanning n_samps) idx
                                            (replicate (length rows) 0) 0 ?chunks)))"
          using ns pure sr Inr
          by (simp add: lagged_coherence_1freq_def fourier_coes_rateoi_of_def
                fourier_f_idx_of_def Let_def)
        ultimately show ?thesis by (simp only: loop)
      qed
    qed
  qed
qed

lemma lcs_loop_st_result:
  assumes "cells s xa = Some (RealArr xs)" and "xa < fresh s"
    and "cells s la = Some (FloatArr lcs)" and "la < fresh s" and "la \<noteq> xa"
  shows "case lcs_loop xs s_rate n_cycles f_step lcs ind freqs of
           Inl e \<Rightarrow> fst (lcs_loop_st xa s_rate n_cycles f_step la ind freqs s) = Inl e
         | Inr lcs' \<Rightarrow>
             fst (lcs_loop_st xa s_rate n_cycles f_step la ind freqs s) = Inr ()
             \<and> float_array (snd (lcs_loop_st xa s_rate n_cycles f_step la ind freqs s)) la = lcs'"
  using assms
proof (induction freqs arbitrary: s lcs ind)
  case Nil
  then show ?case by (simp add: float_array_def)
next
  case (Cons freq freqs)
  obtain r s' where one: "lagged_coherence_1freq_st xa freq s_rate n_cycles f_step s = (r, s')"
    by (cases "lagged_coherence_1freq_st xa freq s_rate n_cycles f_step s")
  have r: "r = lagged_coherence_1freq xs freq s_rate n_cycles f_step"
    using lagged_coherence_1freq_st_result [OF Cons.prems(1,2), of freq s_rate n_cycles f_step]
      one by simp
  have p: "preserves s s'"
    using preserves_lagged_coherence_1freq_st [of s xa freq s_rate n_cycles f_step] one by simp
  show ?case
  proof (cases r)
    case (Inl e)
    have pu: "lagged_coherence_1freq xs freq s_rate n_cycles f_step = Inl e"
      using r Inl by simp
    have st: "lagged_coherence_1freq_st xa freq s_rate n_cycles f_step s = (Inl e, s')"
      using one Inl by simp
    show ?thesis by (simp add: pu st)
  next
    case (Inr v)
    let ?s'' = "setitem_float la ind v s'"
    have la': "cells s' la = Some (FloatArr lcs)"
      using p Cons.prems(3,4) by (simp add: preserves_def)
    have 1: "cells ?s'' xa = Some (RealArr xs)"
      using p Cons.prems(1,2,5) by (simp add: preserves_def setitem_float_def)
    have 2: "xa < fresh ?s''"
      using p Cons.prems(2) by (simp add: preserves_def fresh_setitem_float)
    have 3: "cells ?s'' la = Some (FloatArr (lcs[ind := v]))"
      using la' by (simp add: setitem_float_def float_array_def)
    have 4: "la < fresh ?s''"
      using p Cons.prems(4) by (simp add: preserves_def fresh_setitem_float)
    note ih = Cons.IH [OF 1 2 3 4 Cons.prems(5), of "Suc ind"]
    have st: "lcs_loop_st xa s_rate n_cycles f_step la ind (freq # freqs) s
                = lcs_loop_st xa s_rate n_cycles f_step la (Suc ind) freqs ?s''"
      using one Inr by simp
    have "lagged_coherence_1freq xs freq s_rate n_cycles f_step = Inr v"
      using r Inr by simp
    then have pu: "lcs_loop xs s_rate n_cycles f_step lcs ind (freq # freqs)
                = lcs_loop xs s_rate n_cycles f_step (lcs[ind := v]) (Suc ind) freqs"
      by simp
    show ?thesis unfolding st pu by (rule ih)
  qed
qed

lemma lagged_coherence_st_result:
  assumes "cells s xa = Some (RealArr xs)" and "xa < fresh s"
  shows "fst (lagged_coherence_st xa f_range s_rate n_cycles f_step return_spectrum s) =
           lagged_coherence xs f_range s_rate n_cycles f_step return_spectrum"
proof (cases "freqs_of f_range f_step")
  case (Inl e)
  then show ?thesis by (simp add: lagged_coherence_st_def lagged_coherence_def)
next
  case fr: (Inr freqs)
  let ?fa = "fresh s"
  let ?la = "Suc (fresh s)"
  let ?zeros = "replicate (length freqs) (Fin 0)"
  define s2 where
    "s2 = s\<lparr>cells := (cells s)(?fa \<mapsto> RealArr freqs, ?la \<mapsto> FloatArr ?zeros),
            fresh := Suc ?la\<rparr>"
  define out where "out = lcs_loop_st xa s_rate n_cycles f_step ?la 0 freqs s2"
  have c1: "cells s2 xa = Some (RealArr xs)" using assms by (simp add: s2_def)
  have c2: "xa < fresh s2" using assms(2) by (simp add: s2_def)
  have c3: "cells s2 ?la = Some (FloatArr ?zeros)" by (simp add: s2_def)
  have c4: "?la < fresh s2" by (simp add: s2_def)
  have c5: "?la \<noteq> xa" using assms(2) by simp
  note loop = lcs_loop_st_result [OF c1 c2 c3 c4 c5, of s_rate n_cycles f_step 0 freqs,
      folded out_def]
  have fa2: "real_array s2 ?fa = freqs" by (simp add: s2_def real_array_def)
  have "cells (snd out) ?fa = cells s2 ?fa"
    using lcs_loop_st_frame [of s2 xa s_rate n_cycles f_step ?la 0 freqs]
    unfolding out_def by (simp add: s2_def)
  then have fa3: "real_array (snd out) ?fa = freqs" using fa2 by (simp add: real_array_def)
  have st: "lagged_coherence_st xa f_range s_rate n_cycles f_step return_spectrum s =
      (case out of
         (Inl e, s3) \<Rightarrow> (Inl e, s3)
       | (Inr u, s3) \<Rightarrow>
           if return_spectrum
           then (Inr (Spectrum (float_array s3 ?la) (real_array s3 ?fa)), s3)
           else (Inr (Scalar (np_mean (float_array s3 ?la))), s3))"
    by (simp add: lagged_coherence_st_def fr Let_def alloc_def out_def s2_def real_array_def
             split: prod.splits sum.splits)
  show ?thesis
  proof (cases "lcs_loop xs s_rate n_cycles f_step ?zeros 0 freqs")
    case (Inl e)
    with loop have "fst out = Inl e" by simp
    then show ?thesis
      unfolding st using Inl by (cases out) (simp add: lagged_coherence_def fr)
  next
    case (Inr lcs')
    with loop have "fst out = Inr ()" and "float_array (snd out) ?la = lcs'" by simp_all
    then show ?thesis
      unfolding st using Inr fa3 by (cases out) (simp add: lagged_coherence_def fr)
  qed
qed

text \<open>
  Claim C10. A call of \<^verbatim>\<open>lagged_coherence\<close> on an array \<open>x\<close> that exists in the store
  leaves that array as it was: after the call, whether it returned or raised and in
  either output mode, the address of \<open>x\<close> holds the same samples in the same order.
\<close>

theorem input_signal_unchanged:
  assumes "xa < fresh s"
  shows "cells (snd (lagged_coherence_st xa f_range s_rate n_cycles f_step return_spectrum s)) xa
           = cells s xa
       \<and> real_array (snd (lagged_coherence_st xa f_range s_rate n_cycles f_step return_spectrum s)) xa
           = real_array s xa"
  using preserves_lagged_coherence_st [of s xa f_range s_rate n_cycles f_step return_spectrum] assms
  by (simp add: preserves_def real_array_def)

theorem input_signal_unchanged_witness:
  "(0::nat) < fresh \<lparr>cells = Map.empty(0 \<mapsto> RealArr [1, 2, 3, 4, 5, 6]), fresh = 1\<rparr>
   \<and> real_array
        (snd (lagged_coherence_st 0 (3, 4) 12 1 1 False
               \<lparr>cells = Map.empty(0 \<mapsto> RealArr [1, 2, 3, 4, 5, 6]), fresh = 1\<rparr>)) 0
       = [1, 2, 3, 4, 5, 6]
   \<and> fst (lagged_coherence_st 0 (3, 4) 12 1 1 False
             \<lparr>cells = Map.empty(0 \<mapsto> RealArr [1, 2, 3, 4, 5, 6]), fresh = 1\<rparr>)
       = Inr (Scalar NaN)"
proof -
  define s0 where "s0 = \<lparr>cells = Map.empty(0 \<mapsto> RealArr [1, 2, 3, 4, 5, 6]), fresh = 1\<rparr>"
  have h: "(0::nat) < fresh s0" by (simp add: s0_def)
  have c: "cells s0 0 = Some (RealArr [1, 2, 3, 4, 5, 6])" by (simp add: s0_def)
  have x: "real_array s0 0 = [1, 2, 3, 4, 5, 6]" by (simp add: s0_def real_array_def)
  from input_signal_unchanged [OF h, of "(3, 4)" 12 1 1 False] x
  have 1: "real_array (snd (lagged_coherence_st 0 (3, 4) 12 1 1 False s0)) 0
             = [1, 2, 3, 4, 5, 6]"
    by simp
  have 2: "fst (lagged_coherence_st 0 (3, 4) 12 1 1 False s0) = Inr (Scalar NaN)"
    using lagged_coherence_st_result [OF c h, of "(3, 4)" 12 1 1 False] sweep_scalar by simp
  from h 1 2 show ?thesis unfolding s0_def by (intro conjI)
qed

text \<open>
  Claim C9. The result of a call is determined by the samples of the signal and the
  parameters: two calls with the same signal, range, rate, cycle count, step and mode
  return the same result (or raise the same error), whatever else the store holds and
  wherever the signal lies in it. In particular a call repeated after a first call, in
  the store that the first call left, returns what the first call returned.
\<close>

theorem two_runs_equal:
  assumes "cells s xa = Some (RealArr xs)" and "xa < fresh s"
    and "cells s' xa' = Some (RealArr xs)" and "xa' < fresh s'"
  shows "fst (lagged_coherence_st xa f_range s_rate n_cycles f_step return_spectrum s)
           = fst (lagged_coherence_st xa' f_range s_rate n_cycles f_step return_spectrum s')"
  by (simp only: lagged_coherence_st_result [OF assms(1,2)]
        lagged_coherence_st_result [OF assms(3,4)])

theorem two_runs_equal_witness:
  "cells \<lparr>cells = Map.empty(0 \<mapsto> RealArr [1, 2, 3, 4, 5, 6]), fresh = 1\<rparr> 0
     = Some (RealArr [1, 2, 3, 4, 5, 6])
   \<and> (0::nat) < fresh \<lparr>cells = Map.empty(0 \<mapsto> RealArr [1, 2, 3, 4, 5, 6]), fresh = 1\<rparr>
   \<and> fst (lagged_coherence_st 0 (3, 4) 12 1 1 True
             \<lparr>cells = Map.empty(0 \<mapsto> RealArr [1, 2, 3, 4, 5, 6]), fresh = 1\<rparr>)
       = fst (lagged_coherence_st 0 (3, 4) 12 1 1 True
               (snd (lagged_coherence_st 0 (3, 4) 12 1 1 True
                      \<lparr>cells = Map.empty(0 \<mapsto> RealArr [1, 2, 3, 4, 5, 6]), fresh = 1\<rparr>)))
   \<and> fst (lagged_coherence_st 0 (3, 4) 12 1 1 True
             \<lparr>cells = Map.empty(0 \<mapsto> RealArr [1, 2, 3, 4, 5, 6]), fresh = 1\<rparr>)
       = Inr (Spectrum [NaN, Fin 1] [3, 4])"
proof -
  define s where "s = \<lparr>cells = Map.empty(0 \<mapsto> RealArr [1, 2, 3, 4, 5, 6]), fresh = 1\<rparr>"
  define s' where "s' = snd (lagged_coherence_st 0 (3, 4) 12 1 1 True s)"
  have h1: "cells s 0 = Some (RealArr [1, 2, 3, 4, 5, 6])" by (simp add: s_def)
  have h2: "(0::nat) < fresh s" by (simp add: s_def)
  have p: "preserves s s'" unfolding s'_def by (rule preserves_lagged_coherence_st)
  have h3: "cells s' 0 = Some (RealArr [1, 2, 3, 4, 5, 6])"
    using p h1 h2 by (simp add: preserves_def)
  have h4: "(0::nat) < fresh s'" using p h2 by (simp add: preserves_def)
  note eq = two_runs_equal [OF h1 h2 h3 h4, of "(3, 4)" 12 1 1 True]
  have v: "fst (lagged_coherence_st 0 (3, 4) 12 1 1 True s) = Inr (Spectrum [NaN, Fin 1] [3, 4])"
    using lagged_coherence_st_result [OF h1 h2, of "(3, 4)" 12 1 1 True] sweep_spectrum
    by simp
  from h1 h2 eq v show ?thesis unfolding s'_def s_def by (intro conjI)
qed

end
